theory Spec2Isabelle
  imports Complex_Main "HOL-Library.AList"
begin

section \<open>The tab-split state store\<close>

text \<open>
  A shallow embedding of \<^verbatim>\<open>TabSplit.store\<close> (src/unnamed/part_000): the state object,
  the action dispatch of \<^verbatim>\<open>update\<close>, the validation of \<^verbatim>\<open>_addTabGroup\<close> and the
  listener set.

  Conventions of the embedding.
  \<^item> The three status strings are the constructors of \<open>status\<close>.
  \<^item> A distribution is a JavaScript number. Its type is the parameter \<open>'n\<close>, of which
    the program uses only \<open>0\<close>, \<open>1\<close>, \<open>+\<close>, \<open>\<le>\<close> and equality, with nothing assumed
    about them: the addition may round as IEEE addition does. Only the statement
    about stored groups takes the order to be linear. Column indices and window
    widths are integers, the group counter is a natural number.
  \<^item> An action is a value of the datatype \<open>action\<close>: its \<^verbatim>\<open>type\<close> string selects the
    constructor and its \<^verbatim>\<open>value\<close> has the documented format. A \<^verbatim>\<open>type\<close> string that
    \<^verbatim>\<open>update\<close> does not know is \<open>UnknownAction\<close>.
  \<^item> The host object \<^verbatim>\<open>utils\<close> is not part of the store's source; its two lookups are
    parameters, read only for their truthiness.
  \<^item> The object \<^verbatim>\<open>tabGroups\<close> is an association list in insertion order; assigning a
    property is \<open>AList.update\<close>.
  \<^item> A listener is identified by a number; the calls of \<^verbatim>\<open>onStateChange\<close> that one
    \<^verbatim>\<open>update\<close> makes are returned as a list. Listeners are taken not to call back
    into the store while they are notified.
\<close>

subsection \<open>Data\<close>

datatype status = Active | Inactive | Destroyed

record 'n tab =
  linkedPanel :: string
  col :: int
  distribution :: 'n

text \<open>
  The \<^verbatim>\<open>value\<close> of an \<^verbatim>\<open>add_tab_group\<close> action, with its properties \<^verbatim>\<open>tabs\<close>,
  \<^verbatim>\<open>color\<close> and \<^verbatim>\<open>layout\<close>; and the stored group, which has the property \<^verbatim>\<open>id\<close>
  (\<open>group_ident\<close>) as well.
\<close>

record 'n newTabGroup =
  new_tabs :: "'n tab list"
  new_color :: string
  new_layout :: string

record 'n tabGroup =
  group_ident :: string
  color :: string
  layout :: string
  tabs :: "'n tab list"

text \<open>
  The object held by \<^verbatim>\<open>_state\<close> is either a full state object, with all five
  properties, or the object \<^verbatim>\<open>{ status: "status_destroyed" }\<close> that \<^verbatim>\<open>update\<close> installs
  once a batch has ended in the destroyed status: \<open>Cleared\<close>.
\<close>

record 'n stateObj =
  status :: status
  windowWidth :: int
  selectedLinkedPanel :: string
  tabGroupIds :: "string list"
  tabGroups :: "(string \<times> 'n tabGroup) list"

datatype 'n state = Full "'n stateObj" | Cleared

fun status_of :: "'n state \<Rightarrow> status" where
  "status_of (Full f) = status f"
| "status_of Cleared = Destroyed"

record 'n utils =
  getTabByLinkedPanel :: "string \<Rightarrow> bool"
  getTabGroupByLinkedPanel :: "string \<Rightarrow> 'n state \<Rightarrow> bool"

type_synonym listener = nat

text \<open>\<^verbatim>\<open>_listeners\<close> is a \<^verbatim>\<open>Set\<close>, iterated in insertion order, or \<^verbatim>\<open>null\<close>.\<close>

record 'n store =
  utils :: "'n utils"
  state :: "'n state"
  tabGroupIdCount :: nat
  listeners :: "listener list option"

datatype 'n action =
    SetActive
  | SetInactive
  | SetDestroyed
  | UpdateWindowWidth int
  | UpdateSelectedLinkedPanel string
  | AddTabGroup "'n newTabGroup"
  | RemoveTabGroup string
  | UpdateTabDistributions string "'n list"
  | UnknownAction string

text \<open>One constructor for each \<^verbatim>\<open>throw\<close> of the source, and the \<^verbatim>\<open>TypeError\<close> of a
  method call on \<^verbatim>\<open>null\<close>.\<close>

datatype error =
    StoreDestroyed
  | AlreadyActive
  | NotActive
  | InvalidWindowWidth
  | UnknownPanel
  | InvalidLayout
  | MissingColor
  | WrongGroupSize
  | ColumnMismatch
  | InvalidTab
  | PanelAlreadySplit
  | DuplicatePanelInGroup
  | DistributionSumMismatch
  | UnknownActionType
  | TypeError

text \<open>The local variables of \<^verbatim>\<open>update\<close>.\<close>

record batch =
  added :: "string list"
  removed :: "string list"
  updated :: "string list"
  dirty :: bool

type_synonym tabGroupsDiff = "string list \<times> string list \<times> string list"

text \<open>
  What one call of \<^verbatim>\<open>update\<close> did: it caught and logged an error, it ended with
  nothing dirty, it called the listeners, or the call of \<^verbatim>\<open>forEach\<close> on a \<^verbatim>\<open>null\<close>
  listener set threw out of it.
\<close>

datatype outcome =
    Failed error
  | Quiet
  | Notified "(listener \<times> tabGroupsDiff) list"
  | Threw error

subsection \<open>Constants and initialisation\<close>

definition TAB_GROUP_ID_PREFIX :: string where
  "TAB_GROUP_ID_PREFIX = ''tabsplit-tab-group-id-''"

definition VALID_LAYOUTS :: "string list" where
  "VALID_LAYOUTS = [''column_split'']"

definition resetState :: "'n state" where
  "resetState = Full \<lparr>status = Inactive, windowWidth = - 1, selectedLinkedPanel = [],
     tabGroupIds = [], tabGroups = []\<rparr>"

definition init :: "'n utils \<Rightarrow> 'n store" where
  "init u = \<lparr>utils = u, state = resetState, tabGroupIdCount = 0, listeners = Some []\<rparr>"

subsection \<open>Group identifiers\<close>

text \<open>The decimal numeral that string concatenation makes of a counter value.\<close>

definition digit_char :: "nat \<Rightarrow> char" where
  "digit_char d = char_of (48 + d)"

fun string_of_nat :: "nat \<Rightarrow> string" where
  "string_of_nat n =
     (if n < 10 then [digit_char n] else string_of_nat (n div 10) @ [digit_char (n mod 10)])"

definition group_id :: "nat \<Rightarrow> string" where
  "group_id n = TAB_GROUP_ID_PREFIX @ string_of_nat n"

subsection \<open>Adding a tab group\<close>

definition isValidTab :: "('n::{ord,zero,one}) utils \<Rightarrow> 'n tab \<Rightarrow> bool" where
  "isValidTab u t =
     (if (col t < 0 \<or> col t > 1) \<or> (distribution t \<le> 0 \<or> distribution t \<ge> 1)
         \<or> \<not> getTabByLinkedPanel u (linkedPanel t)
      then False else True)"

text \<open>
  The loop over \<^verbatim>\<open>tabs\<close>: \<open>i\<close> is the index, \<open>seen\<close> is \<^verbatim>\<open>seenPanels\<close>, \<open>s\<close> is
  \<^verbatim>\<open>distributionSum\<close>. It returns the sum, or the error of the first failing check.
\<close>

fun check_tabs ::
  "('n::{ord,zero,one,plus}) utils \<Rightarrow> 'n stateObj \<Rightarrow> nat \<Rightarrow> string list \<Rightarrow> 'n \<Rightarrow> 'n tab list
     \<Rightarrow> error + 'n" where
  "check_tabs u f i seen s [] = Inr s"
| "check_tabs u f i seen s (t # ts) =
     (if col t \<noteq> int i then Inl ColumnMismatch
      else if \<not> isValidTab u t then Inl InvalidTab
      else if getTabGroupByLinkedPanel u (linkedPanel t) (Full f) then Inl PanelAlreadySplit
      else if linkedPanel t \<in> set seen then Inl DuplicatePanelInGroup
      else check_tabs u f (Suc i) (seen @ [linkedPanel t]) (s + distribution t) ts)"

text \<open>
  \<^verbatim>\<open>_addTabGroup\<close>, called by \<^verbatim>\<open>update\<close> on a full state object \<open>f\<close> with the counter
  at \<open>n\<close>: the new id, the counter and the state object after it, or the error thrown.
  Nothing is written before the last check has passed.
\<close>

definition addTabGroup ::
  "('n::{ord,zero,one,plus}) utils \<Rightarrow> nat \<Rightarrow> 'n stateObj \<Rightarrow> 'n newTabGroup
     \<Rightarrow> error + (string \<times> nat \<times> 'n stateObj)" where
  "addTabGroup u n f g =
     (if new_layout g \<notin> set VALID_LAYOUTS then Inl InvalidLayout
      else if new_color g = [] then Inl MissingColor
      else if length (new_tabs g) \<noteq> 2 then Inl WrongGroupSize
      else case check_tabs u f 0 [] 0 (new_tabs g) of
        Inl e \<Rightarrow> Inl e
      | Inr distributionSum \<Rightarrow>
          if distributionSum \<noteq> 1 then Inl DistributionSumMismatch
          else
            let newGroup = \<lparr>group_ident = group_id n, color = new_color g, layout = new_layout g,
                             tabs = new_tabs g\<rparr>
            in Inr (group_ident newGroup, Suc n,
                    f\<lparr>tabGroups := AList.update (group_ident newGroup) newGroup (tabGroups f),
                      tabGroupIds := tabGroupIds f @ [group_ident newGroup]\<rparr>))"

text \<open>The two stubs: their bodies are empty.\<close>

definition removeTabGroup :: "'n stateObj \<Rightarrow> string \<Rightarrow> 'n stateObj" where
  "removeTabGroup f i = f"

definition updateTabDistributions :: "'n stateObj \<Rightarrow> string \<Rightarrow> 'n list \<Rightarrow> 'n stateObj" where
  "updateTabDistributions f i ds = f"

subsection \<open>The dispatch\<close>

text \<open>The body of the \<^verbatim>\<open>try\<close> block for one action: the store and the local variables
  after it, or the error thrown, in which case nothing has been written.\<close>

definition apply_action ::
  "('n::{ord,zero,one,plus}) store \<Rightarrow> batch \<Rightarrow> 'n action \<Rightarrow> error + ('n store \<times> batch)" where
  "apply_action st b a =
     (case state st of
        Cleared \<Rightarrow> Inl StoreDestroyed
      | Full f \<Rightarrow>
          if status f = Destroyed then Inl StoreDestroyed
          else (case a of
            SetActive \<Rightarrow>
              if status f \<noteq> Active
              then Inr (st\<lparr>state := Full (f\<lparr>status := Active\<rparr>)\<rparr>, b\<lparr>dirty := True\<rparr>)
              else Inl AlreadyActive
          | SetInactive \<Rightarrow>
              if status f = Active
              then Inr (st\<lparr>state := Full (f\<lparr>status := Inactive\<rparr>)\<rparr>, b\<lparr>dirty := True\<rparr>)
              else Inl NotActive
          | SetDestroyed \<Rightarrow>
              Inr (st\<lparr>state := Full (f\<lparr>status := Destroyed\<rparr>)\<rparr>, b\<lparr>dirty := True\<rparr>)
          | UpdateWindowWidth v \<Rightarrow>
              if v \<le> 0 then Inl InvalidWindowWidth
              else if v \<noteq> windowWidth f
              then Inr (st\<lparr>state := Full (f\<lparr>windowWidth := v\<rparr>)\<rparr>, b\<lparr>dirty := True\<rparr>)
              else Inr (st, b)
          | UpdateSelectedLinkedPanel v \<Rightarrow>
              if \<not> getTabByLinkedPanel (utils st) v then Inl UnknownPanel
              else Inr (st\<lparr>state := Full (f\<lparr>selectedLinkedPanel := v\<rparr>)\<rparr>, b\<lparr>dirty := True\<rparr>)
          | AddTabGroup v \<Rightarrow>
              (case addTabGroup (utils st) (tabGroupIdCount st) f v of
                 Inl e \<Rightarrow> Inl e
               | Inr (newId, n', f') \<Rightarrow>
                   Inr (st\<lparr>state := Full f', tabGroupIdCount := n'\<rparr>,
                        b\<lparr>added := added b @ [newId], dirty := True\<rparr>))
          | RemoveTabGroup v \<Rightarrow>
              Inr (st\<lparr>state := Full (removeTabGroup f v)\<rparr>,
                   b\<lparr>removed := removed b @ [v], dirty := True\<rparr>)
          | UpdateTabDistributions i ds \<Rightarrow>
              Inr (st\<lparr>state := Full (updateTabDistributions f i ds)\<rparr>,
                   b\<lparr>updated := updated b @ [i], dirty := True\<rparr>)
          | UnknownAction t \<Rightarrow> Inl UnknownActionType))"

text \<open>
  The \<^verbatim>\<open>for\<close> loop. The first error ends it: \<open>Inl\<close> carries the error, the store and
  the local variables as they are at the \<^verbatim>\<open>return\<close> of the \<^verbatim>\<open>catch\<close> block.
\<close>

fun run_actions ::
  "('n::{ord,zero,one,plus}) store \<Rightarrow> batch \<Rightarrow> 'n action list
     \<Rightarrow> (error \<times> 'n store \<times> batch) + ('n store \<times> batch)" where
  "run_actions st b [] = Inr (st, b)"
| "run_actions st b (a # as) =
     (case apply_action st b a of
        Inl e \<Rightarrow> Inl (e, st, b)
      | Inr (st', b') \<Rightarrow> run_actions st' b' as)"

definition empty_batch :: batch where
  "empty_batch = \<lparr>added = [], removed = [], updated = [], dirty = False\<rparr>"

definition diff_of :: "batch \<Rightarrow> tabGroupsDiff" where
  "diff_of b = (added b, removed b, updated b)"

text \<open>The part of \<^verbatim>\<open>update\<close> after the loop, when \<^verbatim>\<open>dirty\<close> is set.\<close>

definition settle :: "'n state \<Rightarrow> 'n state" where
  "settle s =
     (if status_of s = Inactive then resetState
      else if status_of s = Destroyed then Cleared
      else s)"

definition notify :: "'n store \<Rightarrow> batch \<Rightarrow> 'n store \<times> outcome" where
  "notify st b =
     (let st1 = st\<lparr>state := settle (state st)\<rparr> in
      case listeners st1 of
        None \<Rightarrow> (st1, Threw TypeError)
      | Some ls \<Rightarrow>
          (if status_of (state st1) = Destroyed then st1\<lparr>listeners := None\<rparr> else st1,
           Notified (map (\<lambda>l. (l, diff_of b)) ls)))"

definition update ::
  "('n::{ord,zero,one,plus}) store \<Rightarrow> 'n action list \<Rightarrow> 'n store \<times> outcome" where
  "update st actions =
     (case run_actions st empty_batch actions of
        Inl (e, st', b) \<Rightarrow> (st', Failed e)
      | Inr (st', b) \<Rightarrow> if dirty b then notify st' b else (st', Quiet))"

subsection \<open>Listeners\<close>

definition subscribe :: "'n store \<Rightarrow> listener \<Rightarrow> error + 'n store" where
  "subscribe st l =
     (case listeners st of
        None \<Rightarrow> Inl TypeError
      | Some ls \<Rightarrow> if l \<notin> set ls then Inr (st\<lparr>listeners := Some (ls @ [l])\<rparr>) else Inr st)"

definition unsubscribe :: "'n store \<Rightarrow> listener \<Rightarrow> error + 'n store" where
  "unsubscribe st l =
     (case listeners st of
        None \<Rightarrow> Inl TypeError
      | Some ls \<Rightarrow> if l \<in> set ls then Inr (st\<lparr>listeners := Some (removeAll l ls)\<rparr>) else Inr st)"

subsection \<open>Lifetimes\<close>

text \<open>
  A lifetime of the store is \<^verbatim>\<open>init\<close> followed by calls of its public methods. A
  call of \<^verbatim>\<open>subscribe\<close> or \<^verbatim>\<open>unsubscribe\<close> that throws leaves the store as it
  was; \<^verbatim>\<open>update\<close> leaves what it has written.
\<close>

datatype 'n call = Update "'n action list" | Subscribe listener | Unsubscribe listener

fun exec :: "('n::{ord,zero,one,plus}) store \<Rightarrow> 'n call \<Rightarrow> 'n store" where
  "exec st (Update as) = fst (update st as)"
| "exec st (Subscribe l) = (case subscribe st l of Inl e \<Rightarrow> st | Inr st' \<Rightarrow> st')"
| "exec st (Unsubscribe l) = (case unsubscribe st l of Inl e \<Rightarrow> st | Inr st' \<Rightarrow> st')"

definition run_calls :: "('n::{ord,zero,one,plus}) store \<Rightarrow> 'n call list \<Rightarrow> 'n store" where
  "run_calls st cs = foldl exec st cs"

subsection \<open>Reading a state\<close>

text \<open>
  The group order and the groups of a state object. The object installed after a
  destroy has neither property: it holds no id and no group.
\<close>

definition group_order :: "'n state \<Rightarrow> string list" where
  "group_order s = (case s of Full f \<Rightarrow> tabGroupIds f | Cleared \<Rightarrow> [])"

definition stored_groups :: "'n state \<Rightarrow> (string \<times> 'n tabGroup) list" where
  "stored_groups s = (case s of Full f \<Rightarrow> tabGroups f | Cleared \<Rightarrow> [])"

text \<open>The group order and the keys of the groups: as many, and the same ids.\<close>

definition order_matches_groups :: "'n state \<Rightarrow> bool" where
  "order_matches_groups s =
     (length (group_order s) = card (fst ` set (stored_groups s))
      \<and> set (group_order s) = fst ` set (stored_groups s))"

text \<open>
  A stored group is well formed: two tabs, each distribution strictly between 0 and
  1, and the sum as the loop computes it equal to 1. Here the numbers are linearly
  ordered, which leaves \<^verbatim>\<open>NaN\<close> out.
\<close>

definition group_ok :: "('n::{linorder,zero,one,plus}) tabGroup \<Rightarrow> bool" where
  "group_ok g =
     (case tabs g of
        [t0, t1] \<Rightarrow> 0 < distribution t0 \<and> distribution t0 < 1
                  \<and> 0 < distribution t1 \<and> distribution t1 < 1
                  \<and> 0 + distribution t0 + distribution t1 = 1
      | _ \<Rightarrow> False)"

definition panels :: "'n tabGroup \<Rightarrow> string list" where
  "panels g = map linkedPanel (tabs g)"

text \<open>No panel is in two groups stored under different ids.\<close>

definition groups_disjoint :: "(string \<times> 'n tabGroup) list \<Rightarrow> bool" where
  "groups_disjoint gs =
     (\<forall>(k1, g1) \<in> set gs. \<forall>(k2, g2) \<in> set gs.
        k1 \<noteq> k2 \<longrightarrow> set (panels g1) \<inter> set (panels g2) = {})"

definition groups_inv :: "('n::{linorder,zero,one,plus}) state \<Rightarrow> bool" where
  "groups_inv s =
     (list_all (\<lambda>(k, g). group_ok g) (stored_groups s) \<and> groups_disjoint (stored_groups s))"

text \<open>The stored groups have different ids, are well formed and share no panel.\<close>

definition groups_valid :: "('n::{linorder,zero,one,plus}) state \<Rightarrow> bool" where
  "groups_valid s = (distinct (map fst (stored_groups s)) \<and> groups_inv s)"

text \<open>
  A lookup that reports exactly the membership recorded in the state it is given:
  whether some stored group has a tab with the panel.
\<close>

definition panel_in_groups :: "string \<Rightarrow> 'n state \<Rightarrow> bool" where
  "panel_in_groups p s = list_ex (\<lambda>(k, g). p \<in> set (panels g)) (stored_groups s)"

definition faithful_lookup :: "'n utils \<Rightarrow> bool" where
  "faithful_lookup u =
     (\<forall>p f. getTabGroupByLinkedPanel u p (Full f) = panel_in_groups p (Full f))"

text \<open>
  The ids that one call assigns, in order: the \<^verbatim>\<open>added\<close> list of \<^verbatim>\<open>update\<close> where its
  loop ends, by failure or not. And the ids assigned by a sequence of calls.
\<close>

fun added_by :: "('n::{ord,zero,one,plus}) store \<Rightarrow> 'n call \<Rightarrow> string list" where
  "added_by st (Update as) =
     (case run_actions st empty_batch as of
        Inl (e, st', b) \<Rightarrow> added b
      | Inr (st', b) \<Rightarrow> added b)"
| "added_by st (Subscribe l) = []"
| "added_by st (Unsubscribe l) = []"

fun assigned :: "('n::{ord,zero,one,plus}) store \<Rightarrow> 'n call list \<Rightarrow> string list" where
  "assigned st [] = []"
| "assigned st (c # cs) = added_by st c @ assigned (exec st c) cs"

text \<open>Every group is stored under its own id, made of a counter value already used.\<close>

definition idents_inv :: "nat \<Rightarrow> 'n state \<Rightarrow> bool" where
  "idents_inv n s =
     (\<forall>(k, g) \<in> set (stored_groups s). group_ident g = k \<and> (\<exists>j < n. k = group_id j))"

text \<open>The invariant behind the ids: the groups are keyed in the group order, without
  repetition, by ids made of counter values already used.\<close>

definition ids_inv :: "nat \<Rightarrow> 'n state \<Rightarrow> bool" where
  "ids_inv n s =
     (map fst (stored_groups s) = group_order s \<and> distinct (group_order s)
      \<and> (\<forall>i \<in> set (group_order s). \<exists>k < n. i = group_id k))"

subsection \<open>A host and a store to run the model on\<close>

text \<open>A host with four tabs, numbers read as reals, and a store with one listener.\<close>

definition demo_utils :: "real utils" where
  "demo_utils = \<lparr>getTabByLinkedPanel = (\<lambda>p. p \<in> set [''p1'', ''p2'', ''p3'', ''p4'']),
                  getTabGroupByLinkedPanel = panel_in_groups\<rparr>"

definition demo_tabs :: "string \<Rightarrow> real \<Rightarrow> string \<Rightarrow> real \<Rightarrow> real newTabGroup" where
  "demo_tabs p d q e =
     \<lparr>new_tabs = [\<lparr>linkedPanel = p, col = 0, distribution = d\<rparr>,
                  \<lparr>linkedPanel = q, col = 1, distribution = e\<rparr>],
      new_color = ''#ff0000'', new_layout = ''column_split''\<rparr>"

definition demo_group :: "string \<Rightarrow> string \<Rightarrow> real newTabGroup" where
  "demo_group p q = demo_tabs p (1 / 2) q (1 / 2)"

definition demo_store :: "real store" where
  "demo_store = run_calls (init demo_utils) [Subscribe 7]"

definition demo_state :: "status \<Rightarrow> int \<Rightarrow> string \<Rightarrow> real state" where
  "demo_state s w p = Full \<lparr>status = s, windowWidth = w, selectedLinkedPanel = p,
     tabGroupIds = [], tabGroups = []\<rparr>"

text \<open>The demo store made active, with a window width and a selected panel.\<close>

definition demo_active :: "real store" where
  "demo_active = fst (update demo_store
     [SetActive, UpdateWindowWidth 800, UpdateSelectedLinkedPanel ''p1''])"

text \<open>The demo store destroyed by a call of its own.\<close>

definition demo_destroyed :: "real store" where
  "demo_destroyed = fst (update demo_store [SetDestroyed])"

text \<open>A lifetime in which two groups are added, in two calls.\<close>

definition demo_calls :: "real call list" where
  "demo_calls = [Subscribe 7, Update [SetActive, AddTabGroup (demo_group ''p1'' ''p2'')],
                 Update [AddTabGroup (demo_group ''p3'' ''p4'')]]"

section \<open>Properties\<close>

lemmas demo_defs = demo_store_def demo_utils_def demo_group_def demo_tabs_def demo_state_def
  run_calls_def subscribe_def unsubscribe_def init_def resetState_def panel_in_groups_def
  stored_groups_def group_order_def panels_def

lemmas update_defs = update_def notify_def settle_def empty_batch_def diff_of_def
  apply_action_def removeTabGroup_def updateTabDistributions_def

lemmas add_defs = addTabGroup_def isValidTab_def VALID_LAYOUTS_def

lemma stored_groups_simps [simp]:
  "stored_groups (Full f) = tabGroups f" "stored_groups Cleared = []"
  by (simp_all add: stored_groups_def)

lemma group_order_simps [simp]:
  "group_order (Full f) = tabGroupIds f" "group_order Cleared = []"
  by (simp_all add: group_order_def)

subsection \<open>The demo stores\<close>

lemma demo_active_eq: "demo_active = demo_store\<lparr>state := demo_state Active 800 ''p1''\<rparr>"
  by (simp add: demo_active_def demo_defs update_defs)

lemma demo_destroyed_eq: "demo_destroyed = demo_store\<lparr>state := Cleared, listeners := None\<rparr>"
  by (simp add: demo_destroyed_def demo_defs update_defs)

subsection \<open>The loop\<close>

lemma run_actions_append:
  "run_actions st b (xs @ ys) =
     (case run_actions st b xs of Inl r \<Rightarrow> Inl r | Inr (st', b') \<Rightarrow> run_actions st' b' ys)"
  by (induction xs arbitrary: st b) (auto split: sum.splits)

lemma apply_action_destroyed:
  "status_of (state st) = Destroyed \<Longrightarrow> apply_action st b a = Inl StoreDestroyed"
  by (cases "state st") (simp_all add: apply_action_def)

lemma run_actions_grows:
  "run_actions st b as = Inr (st', b') \<Longrightarrow>
     (dirty b \<longrightarrow> dirty b') \<and> set (removed b) \<subseteq> set (removed b')"
proof (induction as arbitrary: st b)
  case Nil
  then show ?case by simp
next
  case (Cons a as)
  then obtain st1 b1 where s: "apply_action st b a = Inr (st1, b1)"
    and r: "run_actions st1 b1 as = Inr (st', b')"
    by (auto split: sum.splits)
  from s have "(dirty b \<longrightarrow> dirty b1) \<and> set (removed b) \<subseteq> set (removed b1)"
    by (cases "state st"; cases a) (auto simp: apply_action_def split: if_splits sum.splits)
  with Cons.IH [OF r] show ?case by blast
qed

lemma run_actions_removed:
  "run_actions st b as = Inr (st', b') \<Longrightarrow> RemoveTabGroup i \<in> set as \<Longrightarrow>
     dirty b' \<and> i \<in> set (removed b')"
proof (induction as arbitrary: st b)
  case Nil
  then show ?case by simp
next
  case (Cons a as)
  then obtain st1 b1 where s: "apply_action st b a = Inr (st1, b1)"
    and r: "run_actions st1 b1 as = Inr (st', b')"
    by (auto split: sum.splits)
  show ?case
  proof (cases "a = RemoveTabGroup i")
    case True
    with s have "dirty b1 \<and> i \<in> set (removed b1)"
      by (cases "state st") (auto simp: apply_action_def split: if_splits)
    with run_actions_grows [OF r] show ?thesis by blast
  next
    case False
    with Cons.prems have "RemoveTabGroup i \<in> set as" by simp
    then show ?thesis by (rule Cons.IH [OF r])
  qed
qed

lemma apply_action_dirty:
  "apply_action st b a = Inr (st1, b1) \<Longrightarrow> \<forall>v. a \<noteq> UpdateWindowWidth v \<Longrightarrow> dirty b1"
  by (cases "state st"; cases a) (auto simp: apply_action_def split: if_splits sum.splits)

lemma run_actions_dirty:
  "run_actions st b as = Inr (st', b') \<Longrightarrow> a \<in> set as \<Longrightarrow> \<forall>v. a \<noteq> UpdateWindowWidth v \<Longrightarrow>
     dirty b'"
proof (induction as arbitrary: st b)
  case Nil
  then show ?case by simp
next
  case (Cons x xs)
  then obtain st1 b1 where s: "apply_action st b x = Inr (st1, b1)"
    and r: "run_actions st1 b1 xs = Inr (st', b')"
    by (auto split: sum.splits)
  show ?case
  proof (cases "x = a")
    case True
    with s Cons.prems(3) have "dirty b1" by (auto dest: apply_action_dirty)
    with run_actions_grows [OF r] show ?thesis by blast
  next
    case False
    with Cons.prems have "a \<in> set xs" by simp
    then show ?thesis using Cons.prems(3) by (rule Cons.IH [OF r])
  qed
qed

lemma state_notify: "state (fst (notify st b)) = settle (state st)"
  by (simp add: notify_def Let_def split: option.splits)

subsection \<open>Actions on a destroyed store\<close>

text \<open>
  C1, as the code has it. The first statement of the \<^verbatim>\<open>try\<close> block throws whenever
  the status is destroyed, before the action type is looked at. So every action
  submitted to a destroyed store fails at once, \<open>SetDestroyed\<close> included: the call
  returns with the store as it was and nothing else of the batch is run. Submitted
  while the status is not destroyed, \<open>SetDestroyed\<close> never fails: it sets the status
  to destroyed and marks the batch dirty.
\<close>

theorem destroyed_rejects_every_action:
  "(status_of (state st) = Destroyed \<longrightarrow> update st (a # as) = (st, Failed StoreDestroyed))
   \<and> (status_of (state st) \<noteq> Destroyed \<longrightarrow>
        (\<exists>st'. apply_action st b SetDestroyed = Inr (st', b\<lparr>dirty := True\<rparr>)
               \<and> status_of (state st') = Destroyed))"
  by (cases "state st") (auto simp: update_def apply_action_destroyed apply_action_def)

theorem destroyed_rejects_every_action_witness:
  "status_of (state demo_destroyed) = Destroyed
   \<and> update demo_destroyed [UpdateWindowWidth 800, SetActive]
       = (demo_destroyed, Failed StoreDestroyed)
   \<and> status_of (state demo_active) \<noteq> Destroyed
   \<and> apply_action demo_active empty_batch SetDestroyed
       = Inr (demo_active\<lparr>state := demo_state Destroyed 800 ''p1''\<rparr>, empty_batch\<lparr>dirty := True\<rparr>)
   \<and> status_of (demo_state Destroyed 800 ''p1'') = Destroyed"
proof -
  have h1: "status_of (state demo_destroyed) = Destroyed"
    by (simp add: demo_destroyed_eq)
  have h2: "status_of (state demo_active) \<noteq> Destroyed"
    by (simp add: demo_active_eq demo_state_def)
  from destroyed_rejects_every_action
         [of demo_destroyed "UpdateWindowWidth 800" "[SetActive]"] h1
       destroyed_rejects_every_action [of demo_active _ _ empty_batch] h2
  have "update demo_destroyed [UpdateWindowWidth 800, SetActive]
       = (demo_destroyed, Failed StoreDestroyed)
    \<and> (\<exists>st'. apply_action demo_active empty_batch SetDestroyed
               = Inr (st', empty_batch\<lparr>dirty := True\<rparr>))"
    by auto
  moreover have "apply_action demo_active empty_batch SetDestroyed
       = Inr (demo_active\<lparr>state := demo_state Destroyed 800 ''p1''\<rparr>, empty_batch\<lparr>dirty := True\<rparr>)"
    by (simp add: demo_active_eq) (simp add: demo_defs update_defs)
  ultimately show ?thesis using h1 h2 by (simp add: demo_state_def)
qed

text \<open>
  The claim as written fails: the store destroyed by one call rejects a second
  \<open>SetDestroyed\<close> like any other action.
\<close>

theorem redundant_destroy_fails:
  "status_of (state demo_destroyed) = Destroyed
   \<and> apply_action demo_destroyed empty_batch SetDestroyed = Inl StoreDestroyed
   \<and> snd (update demo_destroyed [SetDestroyed]) = Failed StoreDestroyed"
  by (simp add: demo_destroyed_eq) (simp add: update_defs)

subsection \<open>A failing action\<close>

text \<open>
  C4. When the actions \<open>pre\<close> have succeeded, taking the store to \<open>st'\<close>, and the next
  action \<open>a\<close> fails, the call returns \<open>st'\<close>: the writes of \<open>pre\<close> are kept, the
  failing action has written nothing, no listener is called, and whatever follows
  \<open>a\<close> in the batch has no effect on the result.
\<close>

theorem failed_action_aborts_batch:
  assumes "run_actions st empty_batch pre = Inr (st', b')"
    and "apply_action st' b' a = Inl e"
  shows "update st (pre @ a # post) = (st', Failed e)"
  using assms by (simp add: update_def run_actions_append)

theorem failed_action_aborts_batch_witness:
  "run_actions demo_store empty_batch [SetActive, UpdateWindowWidth 800]
     = Inr (demo_store\<lparr>state := demo_state Active 800 []\<rparr>, empty_batch\<lparr>dirty := True\<rparr>)
   \<and> apply_action (demo_store\<lparr>state := demo_state Active 800 []\<rparr>)
         (empty_batch\<lparr>dirty := True\<rparr>) SetActive = Inl AlreadyActive
   \<and> update demo_store ([SetActive, UpdateWindowWidth 800] @ SetActive # [UpdateWindowWidth 900])
     = (demo_store\<lparr>state := demo_state Active 800 []\<rparr>, Failed AlreadyActive)"
proof -
  have h1: "run_actions demo_store empty_batch [SetActive, UpdateWindowWidth 800]
     = Inr (demo_store\<lparr>state := demo_state Active 800 []\<rparr>, empty_batch\<lparr>dirty := True\<rparr>)"
    by (simp add: demo_defs update_defs)
  have h2: "apply_action (demo_store\<lparr>state := demo_state Active 800 []\<rparr>)
         (empty_batch\<lparr>dirty := True\<rparr>) SetActive = Inl AlreadyActive"
    by (simp add: demo_defs update_defs)
  from failed_action_aborts_batch [OF h1 h2, of "[UpdateWindowWidth 900]"] h1 h2
  show ?thesis by simp
qed

text \<open>Every caught failure is of this form.\<close>

lemma run_actions_Inl:
  "run_actions st b as = Inl (e, st', b') \<Longrightarrow>
     \<exists>pre a post. as = pre @ a # post \<and> run_actions st b pre = Inr (st', b')
        \<and> apply_action st' b' a = Inl e"
proof (induction as arbitrary: st b)
  case Nil
  then show ?case by simp
next
  case (Cons x xs)
  show ?case
  proof (cases "apply_action st b x")
    case (Inl e')
    with Cons.prems have "e' = e" "st' = st" "b' = b" by simp_all
    with Inl have "x # xs = [] @ x # xs \<and> run_actions st b [] = Inr (st', b')
        \<and> apply_action st' b' x = Inl e" by simp
    then show ?thesis by blast
  next
    case (Inr r)
    obtain st1 b1 where r: "r = (st1, b1)" by (cases r)
    with Inr Cons.prems have "run_actions st1 b1 xs = Inl (e, st', b')" by simp
    from Cons.IH [OF this] obtain pre a post where
      "xs = pre @ a # post" "run_actions st1 b1 pre = Inr (st', b')"
      "apply_action st' b' a = Inl e" by blast
    with Inr r have "x # xs = (x # pre) @ a # post \<and> run_actions st b (x # pre) = Inr (st', b')
        \<and> apply_action st' b' a = Inl e" by simp
    then show ?thesis by blast
  qed
qed

subsection \<open>Rejected tab groups\<close>

text \<open>
  C5. The sum is the one the loop computes, \<open>0 + d0 + d1\<close> in the addition of the
  number type, compared with \<open>1\<close> by equality. A proposed group of two tabs whose
  sum is not \<open>1\<close> is rejected, whatever else holds of it. And an \<open>AddTabGroup\<close>
  that fails, for any reason, writes nothing: the call returns the store as the
  actions before it left it, groups and group order included, and calls no
  listener; as the only action of its batch it returns the store it was given.
\<close>

theorem add_tab_group_rejects_wrong_sum:
  "(new_tabs g = [t0, t1] \<and> 0 + distribution t0 + distribution t1 \<noteq> 1 \<longrightarrow>
      (\<exists>e. apply_action st b (AddTabGroup g) = Inl e))
   \<and> (run_actions st0 empty_batch pre = Inr (st, b) \<and> apply_action st b (AddTabGroup g) = Inl e
        \<longrightarrow> update st0 (pre @ AddTabGroup g # post) = (st, Failed e))
   \<and> (apply_action st empty_batch (AddTabGroup g) = Inl e \<longrightarrow>
        update st [AddTabGroup g] = (st, Failed e))"
proof (intro conjI impI)
  assume a: "new_tabs g = [t0, t1] \<and> 0 + distribution t0 + distribution t1 \<noteq> 1"
  have f: "\<exists>e. addTabGroup (utils st) (tabGroupIdCount st) f g = Inl e" for f
    using a by (auto simp: addTabGroup_def split: sum.splits if_splits)
  show "\<exists>e. apply_action st b (AddTabGroup g) = Inl e"
  proof (cases "state st")
    case (Full x)
    from f [of x] obtain e where "addTabGroup (utils st) (tabGroupIdCount st) x g = Inl e" ..
    with Full show ?thesis by (simp add: apply_action_def)
  next
    case Cleared
    then show ?thesis by (simp add: apply_action_def)
  qed
next
  assume "run_actions st0 empty_batch pre = Inr (st, b)
    \<and> apply_action st b (AddTabGroup g) = Inl e"
  then show "update st0 (pre @ AddTabGroup g # post) = (st, Failed e)"
    by (simp add: update_def run_actions_append)
next
  assume "apply_action st empty_batch (AddTabGroup g) = Inl e"
  then show "update st [AddTabGroup g] = (st, Failed e)"
    by (simp add: update_def)
qed

theorem add_tab_group_rejects_wrong_sum_witness:
  "new_tabs (demo_tabs ''p1'' (1 / 2) ''p2'' (2 / 5))
     = [\<lparr>linkedPanel = ''p1'', col = 0, distribution = 1 / 2\<rparr>,
        \<lparr>linkedPanel = ''p2'', col = 1, distribution = 2 / 5\<rparr>]
   \<and> (0::real) + 1 / 2 + 2 / 5 \<noteq> 1
   \<and> run_actions demo_store empty_batch
        [SetActive, UpdateWindowWidth 800, UpdateSelectedLinkedPanel ''p1'']
      = Inr (demo_active, empty_batch\<lparr>dirty := True\<rparr>)
   \<and> apply_action demo_active (empty_batch\<lparr>dirty := True\<rparr>)
        (AddTabGroup (demo_tabs ''p1'' (1 / 2) ''p2'' (2 / 5))) = Inl DistributionSumMismatch
   \<and> update demo_store
        ([SetActive, UpdateWindowWidth 800, UpdateSelectedLinkedPanel ''p1'']
           @ AddTabGroup (demo_tabs ''p1'' (1 / 2) ''p2'' (2 / 5)) # [SetInactive])
      = (demo_active, Failed DistributionSumMismatch)
   \<and> apply_action demo_active empty_batch
        (AddTabGroup (demo_tabs ''p1'' (1 / 2) ''p2'' (2 / 5))) = Inl DistributionSumMismatch
   \<and> update demo_active [AddTabGroup (demo_tabs ''p1'' (1 / 2) ''p2'' (2 / 5))]
      = (demo_active, Failed DistributionSumMismatch)"
proof -
  let ?g = "demo_tabs ''p1'' (1 / 2) ''p2'' (2 / 5)"
  let ?pre = "[SetActive, UpdateWindowWidth 800, UpdateSelectedLinkedPanel ''p1'' :: real action]"
  let ?d = "empty_batch\<lparr>dirty := True\<rparr>"
  have h1: "new_tabs ?g = [\<lparr>linkedPanel = ''p1'', col = 0, distribution = 1 / 2\<rparr>,
        \<lparr>linkedPanel = ''p2'', col = 1, distribution = 2 / 5\<rparr>]
      \<and> (0::real) + 1 / 2 + 2 / 5 \<noteq> 1"
    by (simp add: demo_defs)
  have h2: "apply_action demo_active b (AddTabGroup ?g) = Inl DistributionSumMismatch" for b
    by (simp add: demo_active_eq) (simp add: demo_defs update_defs add_defs)
  have h3: "run_actions demo_store empty_batch ?pre = Inr (demo_active, ?d)"
    by (simp add: demo_active_eq) (simp add: demo_defs update_defs)
  from add_tab_group_rejects_wrong_sum
         [where g = ?g and ?t0.0 = "\<lparr>linkedPanel = ''p1'', col = 0, distribution = 1 / 2\<rparr>"
            and ?t1.0 = "\<lparr>linkedPanel = ''p2'', col = 1, distribution = 2 / 5\<rparr>"
            and st = demo_active and b = ?d and ?st0.0 = demo_store and pre = ?pre
            and post = "[SetInactive]" and e = DistributionSumMismatch]
       h1 h2 h3
  show ?thesis by simp
qed

subsection \<open>The stub of group removal\<close>

text \<open>
  C10. \<^verbatim>\<open>_removeTabGroup\<close> has an empty body and \<^verbatim>\<open>update\<close> checks nothing before
  calling it. On a store that is not destroyed the action \<open>RemoveTabGroup i\<close>
  therefore succeeds for every \<open>i\<close>, leaves the store as it is, appends \<open>i\<close> to
  \<^verbatim>\<open>removed\<close> and sets \<^verbatim>\<open>dirty\<close>. A batch that contains it and runs to its end
  notifies every listener with a \<^verbatim>\<open>removed\<close> list that contains \<open>i\<close>; on an active
  store the call with this one action returns the store it was given and notifies
  with \<open>i\<close> as the only removed id.
\<close>

theorem remove_tab_group_only_marks_dirty:
  "(status_of (state st) \<noteq> Destroyed \<longrightarrow>
      apply_action st b (RemoveTabGroup i)
        = Inr (st, b\<lparr>removed := removed b @ [i], dirty := True\<rparr>))
   \<and> (run_actions st empty_batch as = Inr (st', b') \<and> RemoveTabGroup i \<in> set as
        \<and> listeners st' = Some ls \<longrightarrow>
      snd (update st as) = Notified (map (\<lambda>l. (l, added b', removed b', updated b')) ls)
        \<and> i \<in> set (removed b'))
   \<and> (status_of (state st) = Active \<and> listeners st = Some ls \<longrightarrow>
      update st [RemoveTabGroup i] = (st, Notified (map (\<lambda>l. (l, [], [i], [])) ls)))"
proof -
  have action: "apply_action st b (RemoveTabGroup i)
        = Inr (st, b\<lparr>removed := removed b @ [i], dirty := True\<rparr>)"
    if "status_of (state st) \<noteq> Destroyed" for b
    using that by (cases "state st") (simp_all add: apply_action_def removeTabGroup_def)
  have batch: "snd (update st as) = Notified (map (\<lambda>l. (l, added b', removed b', updated b')) ls)
        \<and> i \<in> set (removed b')"
    if a: "run_actions st empty_batch as = Inr (st', b') \<and> RemoveTabGroup i \<in> set as
        \<and> listeners st' = Some ls"
  proof -
    from a run_actions_removed [of st empty_batch as st' b' i]
    have d: "dirty b'" and m: "i \<in> set (removed b')" by simp_all
    from a d m show ?thesis
      by (simp add: update_def notify_def diff_of_def Let_def)
  qed
  have single: "update st [RemoveTabGroup i] = (st, Notified (map (\<lambda>l. (l, [], [i], [])) ls))"
    if a: "status_of (state st) = Active \<and> listeners st = Some ls"
  proof -
    from a have "status_of (state st) \<noteq> Destroyed" by simp
    from action [OF this, of empty_batch] a show ?thesis
      by (simp add: update_def notify_def settle_def diff_of_def empty_batch_def)
  qed
  from action [of b] batch single show ?thesis by blast
qed

theorem remove_tab_group_only_marks_dirty_witness:
  "status_of (state demo_active) \<noteq> Destroyed
   \<and> apply_action demo_active empty_batch (RemoveTabGroup ''no-such-group'')
      = Inr (demo_active, empty_batch\<lparr>removed := [''no-such-group''], dirty := True\<rparr>)
   \<and> run_actions demo_active empty_batch [RemoveTabGroup ''no-such-group'']
      = Inr (demo_active, empty_batch\<lparr>removed := [''no-such-group''], dirty := True\<rparr>)
   \<and> status_of (state demo_active) = Active \<and> listeners demo_active = Some [7]
   \<and> update demo_active [RemoveTabGroup ''no-such-group'']
      = (demo_active, Notified [(7, [], [''no-such-group''], [])])"
proof -
  let ?b = "empty_batch\<lparr>removed := [''no-such-group''], dirty := True\<rparr>"
  have h1: "status_of (state demo_active) \<noteq> Destroyed"
    by (simp add: demo_active_eq demo_state_def)
  have h2: "run_actions demo_active empty_batch [RemoveTabGroup ''no-such-group''] = Inr (demo_active, ?b)
      \<and> RemoveTabGroup ''no-such-group'' \<in> set [RemoveTabGroup ''no-such-group'' :: real action]
      \<and> listeners demo_active = Some [7]"
    by (simp add: demo_active_eq) (simp add: demo_defs update_defs)
  have h3: "status_of (state demo_active) = Active \<and> listeners demo_active = Some [7]"
    by (simp add: demo_active_eq) (simp add: demo_defs)
  from remove_tab_group_only_marks_dirty
    [of demo_active empty_batch "''no-such-group''" "[RemoveTabGroup ''no-such-group'']"
        demo_active ?b "[7]"]
    h1 h2 h3
  show ?thesis by (simp add: empty_batch_def)
qed

subsection \<open>The end of a batch\<close>

text \<open>
  C2. The source documents that all other state and the listeners are cleared once
  the status is destroyed, and \<^verbatim>\<open>update\<close> does so after the loop. But an action
  that follows \<open>SetDestroyed\<close> in the same batch always fails, and the \<^verbatim>\<open>return\<close> of
  the \<^verbatim>\<open>catch\<close> block skips the clearing: the call leaves the status destroyed, the
  window width at 800 and the listener registered.
\<close>

theorem destroy_before_failure_keeps_fields:
  "state (fst (update demo_store [UpdateWindowWidth 800, SetDestroyed, SetActive]))
     = demo_state Destroyed 800 []
   \<and> listeners (fst (update demo_store [UpdateWindowWidth 800, SetDestroyed, SetActive]))
     = Some [7]
   \<and> snd (update demo_store [UpdateWindowWidth 800, SetDestroyed, SetActive])
     = Failed StoreDestroyed"
  by (simp add: demo_defs update_defs)

text \<open>A batch that runs to its end in the destroyed status does clear both.\<close>

lemma completed_destroy_clears:
  assumes "run_actions st empty_batch as = Inr (st', b')" and "dirty b'"
    and "status_of (state st') = Destroyed" and "listeners st' = Some ls"
  shows "state (fst (update st as)) = Cleared \<and> listeners (fst (update st as)) = None"
  using assms by (simp add: update_def notify_def settle_def Let_def)

text \<open>
  C3. \<^verbatim>\<open>update_selected_linkedPanel\<close> sets \<^verbatim>\<open>dirty\<close> without comparing the new
  value with the stored one, as \<^verbatim>\<open>update_window_width\<close> does: selecting the panel
  that is already selected leaves the state as it was and still notifies the
  listener.
\<close>

theorem reselecting_panel_notifies:
  "state demo_active = demo_state Active 800 ''p1''
   \<and> state (fst (update demo_active [UpdateSelectedLinkedPanel ''p1''])) = state demo_active
   \<and> snd (update demo_active [UpdateSelectedLinkedPanel ''p1'']) = Notified [(7, [], [], [])]"
  by (simp add: demo_active_eq) (simp add: demo_defs update_defs)

text \<open>The window width is compared, and a notification goes to the listeners of
  the set, with the lists of the batch.\<close>

lemma unchanged_window_width_is_quiet:
  "state st = Full f \<Longrightarrow> status f \<noteq> Destroyed \<Longrightarrow> 0 < windowWidth f \<Longrightarrow>
     update st [UpdateWindowWidth (windowWidth f)] = (st, Quiet)"
  by (simp add: update_defs)

lemma notified_calls:
  "snd (update st as) = Notified cs \<Longrightarrow>
     \<exists>st' b' ls. run_actions st empty_batch as = Inr (st', b') \<and> dirty b'
        \<and> listeners st' = Some ls \<and> cs = map (\<lambda>l. (l, diff_of b')) ls"
  by (auto simp: update_def notify_def Let_def split: sum.splits if_splits option.splits)

text \<open>
  C6, as the code has it. \<open>SetInactive\<close> fails unless the status is active; on an
  active store it succeeds and writes the status only. When the batch has run to
  its end and its last status is inactive, the call leaves the other fields reset
  to their defaults.
\<close>

theorem set_inactive_resets_at_end_of_batch:
  "(status_of (state st) \<noteq> Active \<longrightarrow> (\<exists>e. apply_action st b SetInactive = Inl e))
   \<and> (state st = Full f \<and> status f = Active \<longrightarrow>
        apply_action st b SetInactive
          = Inr (st\<lparr>state := Full (f\<lparr>status := Inactive\<rparr>)\<rparr>, b\<lparr>dirty := True\<rparr>))
   \<and> (run_actions st empty_batch as = Inr (st', b') \<and> SetInactive \<in> set as
        \<and> status_of (state st') = Inactive \<longrightarrow>
        state (fst (update st as)) = resetState)"
proof -
  have fails: "\<exists>e. apply_action st b SetInactive = Inl e" if "status_of (state st) \<noteq> Active"
    using that by (cases "state st") (simp_all add: apply_action_def)
  have succeeds: "apply_action st b SetInactive
          = Inr (st\<lparr>state := Full (f\<lparr>status := Inactive\<rparr>)\<rparr>, b\<lparr>dirty := True\<rparr>)"
    if "state st = Full f \<and> status f = Active"
    using that by (simp add: apply_action_def)
  have resets: "state (fst (update st as)) = resetState"
    if a: "run_actions st empty_batch as = Inr (st', b') \<and> SetInactive \<in> set as
        \<and> status_of (state st') = Inactive"
  proof -
    from a have "dirty b'" by (auto dest: run_actions_dirty)
    with a show ?thesis by (simp add: update_def state_notify settle_def)
  qed
  from fails succeeds resets show ?thesis by blast
qed

theorem set_inactive_resets_at_end_of_batch_witness:
  "status_of (state demo_store) \<noteq> Active
   \<and> apply_action demo_store empty_batch SetInactive = Inl NotActive
   \<and> state demo_active = demo_state Active 800 ''p1''
   \<and> apply_action demo_active empty_batch SetInactive
       = Inr (demo_active\<lparr>state := demo_state Inactive 800 ''p1''\<rparr>, empty_batch\<lparr>dirty := True\<rparr>)
   \<and> run_actions demo_active empty_batch [UpdateWindowWidth 900, SetInactive]
       = Inr (demo_active\<lparr>state := demo_state Inactive 900 ''p1''\<rparr>, empty_batch\<lparr>dirty := True\<rparr>)
   \<and> state (fst (update demo_active [UpdateWindowWidth 900, SetInactive]))
       = demo_state Inactive (- 1) []"
proof -
  let ?f = "\<lparr>status = Active, windowWidth = 800, selectedLinkedPanel = ''p1'',
     tabGroupIds = [], tabGroups = ([] :: (string \<times> real tabGroup) list)\<rparr>"
  let ?as = "[UpdateWindowWidth 900, SetInactive :: real action]"
  let ?st' = "demo_active\<lparr>state := demo_state Inactive 900 ''p1''\<rparr>"
  have h1: "status_of (state demo_store) \<noteq> Active"
    by (simp add: demo_defs)
  have h2: "state demo_active = Full ?f \<and> status ?f = Active"
    by (simp add: demo_active_eq demo_defs)
  have h3: "run_actions demo_active empty_batch ?as = Inr (?st', empty_batch\<lparr>dirty := True\<rparr>)
      \<and> SetInactive \<in> set ?as \<and> status_of (state ?st') = Inactive"
    by (simp add: demo_active_eq) (simp add: demo_defs update_defs)
  have n: "apply_action demo_store empty_batch SetInactive = Inl NotActive"
    by (simp add: demo_defs update_defs)
  from set_inactive_resets_at_end_of_batch [where st = demo_store and b = empty_batch] h1
    set_inactive_resets_at_end_of_batch [where st = demo_active and f = ?f and b = empty_batch] h2
    set_inactive_resets_at_end_of_batch
      [where st = demo_active and as = ?as and st' = ?st' and b' = "empty_batch\<lparr>dirty := True\<rparr>"]
    h3
  have a: "apply_action demo_active empty_batch SetInactive
       = Inr (demo_active\<lparr>state := Full (?f\<lparr>status := Inactive\<rparr>)\<rparr>, empty_batch\<lparr>dirty := True\<rparr>)
   \<and> state (fst (update demo_active ?as)) = resetState"
    by simp
  from h1 n h2 h3 a show ?thesis
    by (simp add: demo_state_def resetState_def)
qed

text \<open>
  The claim as written fails: in the batch \<open>SetInactive, SetActive\<close> the first
  action succeeds, and the window width and the selected panel are never reset.
\<close>

theorem set_inactive_then_active_keeps_fields:
  "state demo_active = demo_state Active 800 ''p1''
   \<and> apply_action demo_active empty_batch SetInactive
       = Inr (demo_active\<lparr>state := demo_state Inactive 800 ''p1''\<rparr>, empty_batch\<lparr>dirty := True\<rparr>)
   \<and> state (fst (update demo_active [SetInactive, SetActive])) = demo_state Active 800 ''p1''
   \<and> snd (update demo_active [SetInactive, SetActive]) = Notified [(7, [], [], [])]"
  by (simp add: demo_active_eq) (simp add: demo_defs update_defs)

subsection \<open>Group identifiers are injective\<close>

declare string_of_nat.simps [simp del]

lemma digit_char_inj: "a < 10 \<Longrightarrow> b < 10 \<Longrightarrow> digit_char a = digit_char b \<Longrightarrow> a = b"
proof -
  assume a: "a < 10" and b: "b < 10" and e: "digit_char a = digit_char b"
  from e have "(of_char (digit_char a) :: nat) = of_char (digit_char b)" by simp
  then have "(48 + a) mod 256 = (48 + b) mod 256" by (simp add: digit_char_def)
  with a b show "a = b" by simp
qed

lemma string_of_nat_nonempty: "string_of_nat n \<noteq> []"
  by (subst string_of_nat.simps) simp

lemma string_of_nat_inj: "string_of_nat m = string_of_nat n \<Longrightarrow> m = n"
proof (induction m arbitrary: n rule: string_of_nat.induct)
  case (1 m)
  show ?case
  proof (cases "m < 10")
    case m: True
    show ?thesis
    proof (cases "n < 10")
      case True
      with m "1.prems" show ?thesis
        by (simp add: string_of_nat.simps [of m] string_of_nat.simps [of n] digit_char_inj)
    next
      case False
      with m "1.prems" have "string_of_nat (n div 10) = []"
        by (simp add: string_of_nat.simps [of m] string_of_nat.simps [of n] Cons_eq_append_conv)
      with string_of_nat_nonempty show ?thesis by blast
    qed
  next
    case m: False
    show ?thesis
    proof (cases "n < 10")
      case True
      with m "1.prems" have "string_of_nat (m div 10) = []"
        by (simp add: string_of_nat.simps [of m] string_of_nat.simps [of n] append_eq_Cons_conv)
      with string_of_nat_nonempty show ?thesis by blast
    next
      case False
      with m "1.prems" have e: "string_of_nat (m div 10) = string_of_nat (n div 10)"
        and d: "digit_char (m mod 10) = digit_char (n mod 10)"
        by (simp_all add: string_of_nat.simps [of m] string_of_nat.simps [of n])
      from "1.IH" [OF m e] have "m div 10 = n div 10" .
      moreover from d have "m mod 10 = n mod 10" by (simp add: digit_char_inj)
      ultimately show ?thesis by (metis div_mult_mod_eq)
    qed
  qed
qed

lemma group_id_inj: "group_id m = group_id n \<Longrightarrow> m = n"
  by (simp add: group_id_def string_of_nat_inj)

lemma group_id_eq_iff [simp]: "group_id m = group_id n \<longleftrightarrow> m = n"
  by (auto dest: group_id_inj)

lemma group_id_0: "group_id 0 = ''tabsplit-tab-group-id-0''"
  by code_simp

lemma group_id_1: "group_id (Suc 0) = ''tabsplit-tab-group-id-1''"
  by code_simp

subsection \<open>What a successful action writes\<close>

lemma update_fresh: "k \<notin> fst ` set al \<Longrightarrow> AList.update k v al = al @ [(k, v)]"
  by (induction al) auto

lemma set_update_subset: "set (AList.update k v al) \<subseteq> insert (k, v) (set al)"
  by (induction al) auto

lemma addTabGroup_Inr:
  assumes "addTabGroup u n f g = Inr (i, n', f')"
  shows "i = group_id n" and "n' = Suc n"
    and "f' = f\<lparr>tabGroups := AList.update (group_id n)
                 \<lparr>group_ident = group_id n, color = new_color g, layout = new_layout g,
                  tabs = new_tabs g\<rparr> (tabGroups f),
               tabGroupIds := tabGroupIds f @ [group_id n]\<rparr>"
    and "\<exists>t0 t1. new_tabs g = [t0, t1] \<and> isValidTab u t0 \<and> isValidTab u t1
           \<and> \<not> getTabGroupByLinkedPanel u (linkedPanel t0) (Full f)
           \<and> \<not> getTabGroupByLinkedPanel u (linkedPanel t1) (Full f)
           \<and> 0 + distribution t0 + distribution t1 = 1"
proof -
  from assms have l: "length (new_tabs g) = 2"
    by (auto simp: addTabGroup_def split: if_splits)
  then obtain t0 t1 where t: "new_tabs g = [t0, t1]"
    by (cases "new_tabs g"; cases "tl (new_tabs g)") auto
  from assms t show "i = group_id n" "n' = Suc n"
    "f' = f\<lparr>tabGroups := AList.update (group_id n)
                 \<lparr>group_ident = group_id n, color = new_color g, layout = new_layout g,
                  tabs = new_tabs g\<rparr> (tabGroups f),
               tabGroupIds := tabGroupIds f @ [group_id n]\<rparr>"
    by (auto simp: addTabGroup_def Let_def split: if_splits sum.splits)
  from assms t have "isValidTab u t0 \<and> isValidTab u t1
           \<and> \<not> getTabGroupByLinkedPanel u (linkedPanel t0) (Full f)
           \<and> \<not> getTabGroupByLinkedPanel u (linkedPanel t1) (Full f)
           \<and> 0 + distribution t0 + distribution t1 = 1"
    by (auto simp: addTabGroup_def Let_def split: if_splits sum.splits)
  with t show "\<exists>t0 t1. new_tabs g = [t0, t1] \<and> isValidTab u t0 \<and> isValidTab u t1
           \<and> \<not> getTabGroupByLinkedPanel u (linkedPanel t0) (Full f)
           \<and> \<not> getTabGroupByLinkedPanel u (linkedPanel t1) (Full f)
           \<and> 0 + distribution t0 + distribution t1 = 1" by blast
qed

text \<open>What a successful action may have done to the store.\<close>

lemma apply_action_Inr:
  assumes "apply_action st b a = Inr (st', b')"
  obtains (frame) f f' where "state st = Full f" "status f \<noteq> Destroyed" "state st' = Full f'"
      "tabGroups f' = tabGroups f" "tabGroupIds f' = tabGroupIds f"
      "tabGroupIdCount st' = tabGroupIdCount st" "utils st' = utils st"
      "listeners st' = listeners st" "added b' = added b"
    | (add) f g i n' f' where "state st = Full f" "status f \<noteq> Destroyed" "a = AddTabGroup g"
      "addTabGroup (utils st) (tabGroupIdCount st) f g = Inr (i, n', f')"
      "state st' = Full f'" "tabGroupIdCount st' = n'" "utils st' = utils st"
      "listeners st' = listeners st" "added b' = added b @ [i]"
proof (cases "state st")
  case Cleared
  with assms show ?thesis by (simp add: apply_action_def)
next
  case (Full f)
  with assms have nd: "status f \<noteq> Destroyed"
    by (auto simp: apply_action_def split: if_splits)
  show ?thesis
  proof (cases a)
    case (AddTabGroup g)
    with assms Full nd obtain i n' f' where
      "addTabGroup (utils st) (tabGroupIdCount st) f g = Inr (i, n', f')"
      "st' = st\<lparr>state := Full f', tabGroupIdCount := n'\<rparr>" "b' = b\<lparr>added := added b @ [i], dirty := True\<rparr>"
      by (auto simp: apply_action_def split: sum.splits)
    with Full nd AddTabGroup show ?thesis by (intro add [of f g i n' f']) simp_all
  qed (use assms Full nd in \<open>auto simp: apply_action_def removeTabGroup_def
        updateTabDistributions_def split: if_splits intro!: frame\<close>)
qed

subsection \<open>Induction over a lifetime\<close>

lemma update_keeps:
  "run_actions st empty_batch as = Inl (e, st', b) \<or> run_actions st empty_batch as = Inr (st', b) \<Longrightarrow>
     utils (fst (update st as)) = utils st'
     \<and> tabGroupIdCount (fst (update st as)) = tabGroupIdCount st'"
  by (auto simp: update_def notify_def Let_def split: option.splits)

lemma run_actions_result:
  "\<exists>e st' b'. run_actions st b as = Inl (e, st', b') \<or> run_actions st b as = Inr (st', b')"
  by (cases "run_actions st b as") auto

text \<open>An induction principle over the lifetimes of a store.\<close>

lemma lifetime_induct:
  fixes u :: "('n::{ord,zero,one,plus}) utils"
  assumes addP: "\<And>n f g i n' f'. P n (Full f) \<Longrightarrow> status f \<noteq> Destroyed \<Longrightarrow>
        addTabGroup u n f g = Inr (i, n', f') \<Longrightarrow> P n' (Full f')"
    and frameP: "\<And>n f f'. P n (Full f) \<Longrightarrow> tabGroups f' = tabGroups f \<Longrightarrow>
        tabGroupIds f' = tabGroupIds f \<Longrightarrow> P n (Full f')"
    and reset: "\<And>n. P n resetState"
    and cleared: "\<And>n. P n Cleared"
  shows "P (tabGroupIdCount (run_calls (init u) cs)) (state (run_calls (init u) cs))
    \<and> utils (run_calls (init u) cs) = u"
proof -
  define Q where "Q st \<longleftrightarrow> P (tabGroupIdCount st) (state st) \<and> utils st = u" for st :: "'n store"
  have step: "Q st'" if "Q st" "apply_action st b a = Inr (st', b')" for st b a st' b'
    using that(2)
  proof (cases rule: apply_action_Inr)
    case (frame f f')
    with that(1) frameP [of "tabGroupIdCount st" f f'] show ?thesis
      by (simp add: Q_def)
  next
    case (add f g i n' f')
    with that(1) addP [of "tabGroupIdCount st" f g i n' f'] show ?thesis
      by (simp add: Q_def)
  qed
  have loop: "Q st'" if "Q st"
      "run_actions st b as = Inl (e, st', b') \<or> run_actions st b as = Inr (st', b')"
    for as st b e st' b'
    using that
  proof (induction as arbitrary: st b)
    case Nil
    then show ?case by simp
  next
    case (Cons a as)
    show ?case
    proof (cases "apply_action st b a")
      case (Inl e')
      with Cons.prems show ?thesis by simp
    next
      case (Inr r)
      obtain st1 b1 where r: "r = (st1, b1)" by (cases r)
      with Inr Cons.prems(1) have "Q st1" by (auto intro: step)
      moreover from Inr r Cons.prems(2)
      have "run_actions st1 b1 as = Inl (e, st', b') \<or> run_actions st1 b1 as = Inr (st', b')"
        by simp
      ultimately show ?thesis by (rule Cons.IH)
    qed
  qed
  have upd: "Q (fst (update st as))" if q: "Q st" for st as
  proof -
    from run_actions_result obtain e st' b' where
      r: "run_actions st empty_batch as = Inl (e, st', b') \<or> run_actions st empty_batch as = Inr (st', b')"
      by blast
    from loop [OF q r] have q': "Q st'" .
    from update_keeps [OF r] have k: "utils (fst (update st as)) = utils st'"
      "tabGroupIdCount (fst (update st as)) = tabGroupIdCount st'" by simp_all
    from r have "state (fst (update st as)) = Cleared \<or> state (fst (update st as)) = resetState
        \<or> state (fst (update st as)) = state st'"
      by (cases "dirty b'") (auto simp: update_def state_notify settle_def)
    with q' k reset cleared show ?thesis by (auto simp: Q_def)
  qed
  have call: "Q (exec st c)" if "Q st" for st c
  proof (cases c)
    case (Update as)
    with that show ?thesis by (simp add: upd)
  next
    case (Subscribe l)
    with that show ?thesis by (auto simp: Q_def subscribe_def split: option.splits)
  next
    case (Unsubscribe l)
    with that show ?thesis by (auto simp: Q_def unsubscribe_def split: option.splits)
  qed
  have calls: "Q (foldl exec st cs)" if "Q st" for st
    using that by (induction cs arbitrary: st) (simp_all add: call)
  have "Q (init u)" by (simp add: Q_def init_def reset)
  from calls [OF this] show ?thesis by (simp add: Q_def run_calls_def)
qed

text \<open>The demo lifetime, run.\<close>

lemma demo_count:
  "tabGroupIdCount (run_calls (init demo_utils) demo_calls) = 2"
  by (simp add: demo_calls_def demo_defs update_defs add_defs Let_def)

lemma demo_run:
  "state (run_calls (init demo_utils) demo_calls) =
     Full \<lparr>status = Active, windowWidth = - 1, selectedLinkedPanel = [],
       tabGroupIds = [''tabsplit-tab-group-id-0'', ''tabsplit-tab-group-id-1''],
       tabGroups =
         [(''tabsplit-tab-group-id-0'',
           \<lparr>group_ident = ''tabsplit-tab-group-id-0'', color = ''#ff0000'',
            layout = ''column_split'',
            tabs = [\<lparr>linkedPanel = ''p1'', col = 0, distribution = 1 / 2\<rparr>,
                    \<lparr>linkedPanel = ''p2'', col = 1, distribution = 1 / 2\<rparr>]\<rparr>),
          (''tabsplit-tab-group-id-1'',
           \<lparr>group_ident = ''tabsplit-tab-group-id-1'', color = ''#ff0000'',
            layout = ''column_split'',
            tabs = [\<lparr>linkedPanel = ''p3'', col = 0, distribution = 1 / 2\<rparr>,
                    \<lparr>linkedPanel = ''p4'', col = 1, distribution = 1 / 2\<rparr>]\<rparr>)]\<rparr>"
  by (simp add: demo_calls_def demo_defs update_defs add_defs Let_def)
    (simp add: group_id_0 group_id_1)

subsection \<open>Group order and groups\<close>

lemma ids_inv_lifetime: "ids_inv (tabGroupIdCount (run_calls (init u) cs)) (state (run_calls (init u) cs))"
proof -
  have "ids_inv (tabGroupIdCount (run_calls (init u) cs)) (state (run_calls (init u) cs))
    \<and> utils (run_calls (init u) cs) = u"
  proof (rule lifetime_induct)
    fix n f g i n' f'
    assume inv: "ids_inv n (Full f)" and a: "addTabGroup u n f g = Inr (i, n', f')"
    from inv have fresh: "group_id n \<notin> fst ` set (tabGroups f)"
      by (auto simp: ids_inv_def dest: group_id_inj simp flip: set_map)
    with inv addTabGroup_Inr(2,3) [OF a] show "ids_inv n' (Full f')"
      by (auto simp: ids_inv_def update_fresh less_Suc_eq simp flip: set_map)
  qed (auto simp: ids_inv_def resetState_def)
  then show ?thesis ..
qed

lemma ids_inv_order: "ids_inv n s \<Longrightarrow> order_matches_groups s"
  by (cases s) (auto simp: ids_inv_def order_matches_groups_def distinct_card simp flip: set_map)

text \<open>
  C7. After \<^verbatim>\<open>init\<close> and any sequence of calls of \<^verbatim>\<open>update\<close>, \<^verbatim>\<open>subscribe\<close> and
  \<^verbatim>\<open>unsubscribe\<close>, whether their batches fail or not, the group order has as many
  elements as the groups have keys, and the ids of the one are the keys of the
  other.
\<close>

theorem group_order_matches_groups:
  "order_matches_groups (state (run_calls (init u) cs))"
  using ids_inv_lifetime by (rule ids_inv_order)

theorem group_order_matches_groups_witness:
  "group_order (state (run_calls (init demo_utils) demo_calls))
     = [''tabsplit-tab-group-id-0'', ''tabsplit-tab-group-id-1'']
   \<and> map fst (stored_groups (state (run_calls (init demo_utils) demo_calls)))
     = [''tabsplit-tab-group-id-0'', ''tabsplit-tab-group-id-1'']
   \<and> order_matches_groups (state (run_calls (init demo_utils) demo_calls))"
  using group_order_matches_groups [of demo_utils demo_calls]
  by (simp add: demo_run)

subsection \<open>Stored groups\<close>

lemma panel_in_groups_iff:
  "panel_in_groups p (Full f) \<longleftrightarrow> (\<exists>(k, g) \<in> set (tabGroups f). p \<in> set (panels g))"
  by (simp add: panel_in_groups_def panels_def list_ex_iff)

lemma groups_inv_add:
  fixes u :: "('n::{linorder,zero,one,plus}) utils"
  assumes fl: "faithful_lookup u" and inv: "groups_inv (Full f)"
    and a: "addTabGroup u n f g = Inr (i, n', f')"
  shows "groups_inv (Full f')"
proof -
  let ?k = "group_id n"
  let ?g = "\<lparr>group_ident = group_id n, color = new_color g, layout = new_layout g,
             tabs = new_tabs g\<rparr>"
  from addTabGroup_Inr(3) [OF a] have f': "tabGroups f' = AList.update ?k ?g (tabGroups f)"
    by simp
  from addTabGroup_Inr(4) [OF a] obtain t0 t1 where t: "new_tabs g = [t0, t1]"
    and v: "isValidTab u t0" "isValidTab u t1"
    and n0: "\<not> getTabGroupByLinkedPanel u (linkedPanel t0) (Full f)"
    and n1: "\<not> getTabGroupByLinkedPanel u (linkedPanel t1) (Full f)"
    and s: "0 + distribution t0 + distribution t1 = 1" by blast
  from v have "0 < distribution t0 \<and> distribution t0 < 1
      \<and> 0 < distribution t1 \<and> distribution t1 < 1"
    by (auto simp: isValidTab_def split: if_splits)
  with t s have ok: "group_ok ?g" by (simp add: group_ok_def)
  from fl n0 n1 t have new: "set (panels ?g) \<inter> set (panels g2) = {}"
    if "(k2, g2) \<in> set (tabGroups f)" for k2 g2
    using that by (auto simp: faithful_lookup_def panel_in_groups_iff panels_def)
  have sub: "set (tabGroups f') \<subseteq> insert (?k, ?g) (set (tabGroups f))"
    unfolding f' by (rule set_update_subset)
  from inv have old_ok: "group_ok g2" if "(k2, g2) \<in> set (tabGroups f)" for k2 g2
    using that by (auto simp: groups_inv_def list_all_iff)
  from inv have old_dj: "set (panels g1) \<inter> set (panels g2) = {}"
    if "(k1, g1) \<in> set (tabGroups f)" "(k2, g2) \<in> set (tabGroups f)" "k1 \<noteq> k2" for k1 g1 k2 g2
    using that by (fastforce simp: groups_inv_def groups_disjoint_def)
  have all: "list_all (\<lambda>(k, g). group_ok g) (tabGroups f')"
    using sub ok old_ok by (auto simp: list_all_iff)
  have "set (panels g1) \<inter> set (panels g2) = {}"
    if m: "(k1, g1) \<in> set (tabGroups f')" "(k2, g2) \<in> set (tabGroups f')" and ne: "k1 \<noteq> k2"
    for k1 g1 k2 g2
  proof -
    from m sub have c1: "(k1, g1) = (?k, ?g) \<or> (k1, g1) \<in> set (tabGroups f)"
      and c2: "(k2, g2) = (?k, ?g) \<or> (k2, g2) \<in> set (tabGroups f)" by auto
    from c1 c2 ne new [of k1 g1] new [of k2 g2] old_dj [of k1 g1 k2 g2]
    show ?thesis by auto
  qed
  then have "groups_disjoint (tabGroups f')"
    unfolding groups_disjoint_def by blast
  with all show ?thesis by (simp add: groups_inv_def)
qed

text \<open>
  C8. When the host's group lookup reports exactly the membership recorded in the
  state object it is given, every state reached after \<^verbatim>\<open>init\<close> stores, under
  different ids, only groups of two tabs whose distributions lie strictly between
  0 and 1 and sum to 1, and no panel belongs to two stored groups.
\<close>

theorem stored_groups_are_valid:
  fixes u :: "('n::{linorder,zero,one,plus}) utils"
  assumes "faithful_lookup u"
  shows "groups_valid (state (run_calls (init u) cs))"
proof -
  have "groups_inv (state (run_calls (init u) cs)) \<and> utils (run_calls (init u) cs) = u"
  proof (rule lifetime_induct [where P = "\<lambda>n. groups_inv"])
    fix n f g i n' f'
    assume "groups_inv (Full f)" "addTabGroup u n f g = Inr (i, n', f')"
    with assms show "groups_inv (Full f')" by (rule groups_inv_add)
  qed (auto simp: groups_inv_def resetState_def groups_disjoint_def)
  moreover from ids_inv_lifetime [of u cs]
  have "distinct (map fst (stored_groups (state (run_calls (init u) cs))))"
    by (simp add: ids_inv_def)
  ultimately show ?thesis by (simp add: groups_valid_def)
qed

theorem stored_groups_are_valid_witness:
  "faithful_lookup demo_utils
   \<and> map (panels \<circ> snd) (stored_groups (state (run_calls (init demo_utils) demo_calls)))
       = [[''p1'', ''p2''], [''p3'', ''p4'']]
   \<and> groups_valid (state (run_calls (init demo_utils) demo_calls))"
proof -
  have h: "faithful_lookup demo_utils"
    by (simp add: faithful_lookup_def demo_utils_def)
  from stored_groups_are_valid [OF h, of demo_calls] h show ?thesis
    by (simp add: demo_run panels_def)
qed

subsection \<open>Assigned identifiers\<close>

lemma apply_action_added:
  assumes "apply_action st b a = Inr (st', b')"
  shows "added b' = added b @ map group_id [tabGroupIdCount st ..< tabGroupIdCount st']
    \<and> tabGroupIdCount st \<le> tabGroupIdCount st'"
  using assms
proof (cases rule: apply_action_Inr)
  case (frame f f')
  then show ?thesis by simp
next
  case (add f g i n' f')
  with addTabGroup_Inr(1,2) [OF add(4)] show ?thesis by simp
qed

lemma upt_join: "a \<le> b \<Longrightarrow> b \<le> c \<Longrightarrow> [a ..< b] @ [b ..< c] = [a ..< (c::nat)]"
  by (metis le_Suc_ex upt_add_eq_append)

lemma run_actions_added:
  "run_actions st b as = Inl (e, st', b') \<or> run_actions st b as = Inr (st', b') \<Longrightarrow>
     added b' = added b @ map group_id [tabGroupIdCount st ..< tabGroupIdCount st']
     \<and> tabGroupIdCount st \<le> tabGroupIdCount st'"
proof (induction as arbitrary: st b)
  case Nil
  then show ?case by simp
next
  case (Cons a as)
  show ?case
  proof (cases "apply_action st b a")
    case (Inl e')
    with Cons.prems show ?thesis by simp
  next
    case (Inr r)
    obtain st1 b1 where r: "r = (st1, b1)" by (cases r)
    from Inr r have s: "apply_action st b a = Inr (st1, b1)" by simp
    from s Cons.prems
    have "run_actions st1 b1 as = Inl (e, st', b') \<or> run_actions st1 b1 as = Inr (st', b')"
      by simp
    from Cons.IH [OF this] apply_action_added [OF s] show ?thesis
      by (simp add: upt_join flip: map_append)
  qed
qed

lemma added_by_exec:
  "added_by st c = map group_id [tabGroupIdCount st ..< tabGroupIdCount (exec st c)]
   \<and> tabGroupIdCount st \<le> tabGroupIdCount (exec st c)"
proof (cases c)
  case (Update as)
  from run_actions_result obtain e st' b' where
    r: "run_actions st empty_batch as = Inl (e, st', b') \<or> run_actions st empty_batch as = Inr (st', b')"
    by blast
  from run_actions_added [OF r] update_keeps [OF r] r Update show ?thesis
    by (auto simp: empty_batch_def)
next
  case (Subscribe l)
  then show ?thesis by (auto simp: subscribe_def split: option.splits)
next
  case (Unsubscribe l)
  then show ?thesis by (auto simp: unsubscribe_def split: option.splits)
qed

lemma assigned_run_calls:
  "assigned st cs = map group_id [tabGroupIdCount st ..< tabGroupIdCount (run_calls st cs)]
   \<and> tabGroupIdCount st \<le> tabGroupIdCount (run_calls st cs)"
proof (induction cs arbitrary: st)
  case Nil
  then show ?case by (simp add: run_calls_def)
next
  case (Cons c cs)
  from Cons.IH [of "exec st c"] added_by_exec [of st c] show ?case
    by (simp add: run_calls_def upt_join flip: map_append)
qed

lemma idents_inv_lifetime:
  "idents_inv (tabGroupIdCount (run_calls (init u) cs)) (state (run_calls (init u) cs))"
proof -
  have "idents_inv (tabGroupIdCount (run_calls (init u) cs)) (state (run_calls (init u) cs))
    \<and> utils (run_calls (init u) cs) = u"
  proof (rule lifetime_induct)
    fix n f g i n' f'
    assume inv: "idents_inv n (Full f)" and a: "addTabGroup u n f g = Inr (i, n', f')"
    let ?grp = "\<lparr>group_ident = group_id n, color = new_color g, layout = new_layout g,
                 tabs = new_tabs g\<rparr>"
    from addTabGroup_Inr(3) [OF a]
    have "set (tabGroups f') \<subseteq> insert (group_id n, ?grp) (set (tabGroups f))"
      by (simp add: set_update_subset)
    moreover from inv have "\<And>k g. (k, g) \<in> set (tabGroups f) \<Longrightarrow>
        group_ident g = k \<and> (\<exists>j < Suc n. k = group_id j)"
      by (fastforce simp: idents_inv_def less_Suc_eq)
    moreover have "group_ident ?grp = group_id n \<and> (\<exists>j < Suc n. group_id n = group_id j)"
      by auto
    ultimately have "\<And>k g. (k, g) \<in> set (tabGroups f') \<Longrightarrow>
        group_ident g = k \<and> (\<exists>j < Suc n. k = group_id j)"
      by blast
    with addTabGroup_Inr(2) [OF a] show "idents_inv n' (Full f')"
      by (auto simp: idents_inv_def)
  qed (auto simp: idents_inv_def resetState_def)
  then show ?thesis ..
qed

text \<open>
  C9. A successful \<open>AddTabGroup\<close> assigns the prefix followed by the decimal numeral
  of the counter, and increments the counter: the id is pushed onto \<^verbatim>\<open>added\<close>, the
  copy of the proposed group is given it as its \<^verbatim>\<open>id\<close> and is stored under it, and
  it is appended to the group order. Over a lifetime, the ids assigned by all calls
  together, in order, are the prefix followed by 0, 1, 2, ... up to the counter:
  the counter never goes back, whatever is reset or removed in between, and no id
  is assigned twice. Every group found in a state of the lifetime is stored under
  its own id, which is one of those assigned.
\<close>

theorem group_ids_are_never_reused:
  "(apply_action st b (AddTabGroup g) = Inr (st', b') \<longrightarrow>
      added b' = added b @ [TAB_GROUP_ID_PREFIX @ string_of_nat (tabGroupIdCount st)]
      \<and> tabGroupIdCount st' = Suc (tabGroupIdCount st)
      \<and> stored_groups (state st')
          = AList.update (TAB_GROUP_ID_PREFIX @ string_of_nat (tabGroupIdCount st))
              \<lparr>group_ident = TAB_GROUP_ID_PREFIX @ string_of_nat (tabGroupIdCount st),
               color = new_color g, layout = new_layout g, tabs = new_tabs g\<rparr>
              (stored_groups (state st))
      \<and> map_of (stored_groups (state st'))
            (TAB_GROUP_ID_PREFIX @ string_of_nat (tabGroupIdCount st))
          = Some \<lparr>group_ident = TAB_GROUP_ID_PREFIX @ string_of_nat (tabGroupIdCount st),
                  color = new_color g, layout = new_layout g, tabs = new_tabs g\<rparr>
      \<and> group_order (state st')
          = group_order (state st) @ [TAB_GROUP_ID_PREFIX @ string_of_nat (tabGroupIdCount st)])
   \<and> assigned (init u) cs
       = map (\<lambda>k. TAB_GROUP_ID_PREFIX @ string_of_nat k)
           [0 ..< tabGroupIdCount (run_calls (init u) cs)]
   \<and> distinct (assigned (init u) cs)
   \<and> (\<forall>(k, g) \<in> set (stored_groups (state (run_calls (init u) cs))).
         group_ident g = k \<and> k \<in> set (assigned (init u) cs))"
proof -
  let ?id = "TAB_GROUP_ID_PREFIX @ string_of_nat (tabGroupIdCount st)"
  let ?grp = "\<lparr>group_ident = ?id, color = new_color g, layout = new_layout g,
               tabs = new_tabs g\<rparr>"
  have one: "added b' = added b @ [?id]
      \<and> tabGroupIdCount st' = Suc (tabGroupIdCount st)
      \<and> stored_groups (state st') = AList.update ?id ?grp (stored_groups (state st))
      \<and> map_of (stored_groups (state st')) ?id = Some ?grp
      \<and> group_order (state st') = group_order (state st) @ [?id]"
    if "apply_action st b (AddTabGroup g) = Inr (st', b')"
    using that
  proof (cases rule: apply_action_Inr)
    case (frame f f')
    with that show ?thesis
      by (auto simp: apply_action_def split: sum.splits)
  next
    case (add f g' i n' f')
    from add(3) have g: "g' = g" by simp
    from addTabGroup_Inr(1,2,3) [OF add(4)] add g show ?thesis
      by (simp add: group_id_def update_conv')
  qed
  have count0: "tabGroupIdCount (init u) = 0" by (simp add: init_def)
  from assigned_run_calls [of "init u" cs] count0
  have all: "assigned (init u) cs = map group_id [0 ..< tabGroupIdCount (run_calls (init u) cs)]"
    by simp
  have "inj_on group_id A" for A
    by (rule inj_onI) (rule group_id_inj)
  with all have dist: "distinct (assigned (init u) cs)"
    by (simp add: distinct_map)
  have stored: "\<forall>(k, g) \<in> set (stored_groups (state (run_calls (init u) cs))).
         group_ident g = k \<and> k \<in> set (assigned (init u) cs)"
  proof (clarify, intro conjI)
    fix k g
    assume m: "(k, g) \<in> set (stored_groups (state (run_calls (init u) cs)))"
    with idents_inv_lifetime [of u cs] obtain j where
      i: "group_ident g = k" and j: "j < tabGroupIdCount (run_calls (init u) cs)"
      and k: "k = group_id j"
      by (auto simp: idents_inv_def)
    from i show "group_ident g = k" .
    from j k all show "k \<in> set (assigned (init u) cs)" by simp
  qed
  from all have all': "assigned (init u) cs
       = map (\<lambda>k. TAB_GROUP_ID_PREFIX @ string_of_nat k)
           [0 ..< tabGroupIdCount (run_calls (init u) cs)]"
    by (simp add: group_id_def [abs_def])
  from one all' dist stored show ?thesis by blast
qed

theorem group_ids_are_never_reused_witness:
  "apply_action demo_active empty_batch (AddTabGroup (demo_group ''p1'' ''p2''))
     = Inr (demo_active
              \<lparr>state := Full
                 \<lparr>status = Active, windowWidth = 800, selectedLinkedPanel = ''p1'',
                  tabGroupIds = [''tabsplit-tab-group-id-0''],
                  tabGroups =
                    [(''tabsplit-tab-group-id-0'',
                      \<lparr>group_ident = ''tabsplit-tab-group-id-0'', color = ''#ff0000'',
                       layout = ''column_split'',
                       tabs = [\<lparr>linkedPanel = ''p1'', col = 0, distribution = 1 / 2\<rparr>,
                               \<lparr>linkedPanel = ''p2'', col = 1, distribution = 1 / 2\<rparr>]\<rparr>)]\<rparr>,
               tabGroupIdCount := 1\<rparr>,
            empty_batch\<lparr>added := [''tabsplit-tab-group-id-0''], dirty := True\<rparr>)
   \<and> tabGroupIdCount demo_active = 0
   \<and> stored_groups (state demo_active) = [] \<and> group_order (state demo_active) = []
   \<and> assigned (init demo_utils) demo_calls
       = [''tabsplit-tab-group-id-0'', ''tabsplit-tab-group-id-1'']
   \<and> distinct (assigned (init demo_utils) demo_calls)
   \<and> map (\<lambda>(k, g). (k, group_ident g))
         (stored_groups (state (run_calls (init demo_utils) demo_calls)))
       = [(''tabsplit-tab-group-id-0'', ''tabsplit-tab-group-id-0''),
          (''tabsplit-tab-group-id-1'', ''tabsplit-tab-group-id-1'')]"
proof -
  let ?grp = "\<lparr>group_ident = ''tabsplit-tab-group-id-0'', color = ''#ff0000'',
               layout = ''column_split'',
               tabs = [\<lparr>linkedPanel = ''p1'', col = 0, distribution = 1 / 2 :: real\<rparr>,
                       \<lparr>linkedPanel = ''p2'', col = 1, distribution = 1 / 2\<rparr>]\<rparr>"
  let ?st' = "demo_active
              \<lparr>state := Full
                 \<lparr>status = Active, windowWidth = 800, selectedLinkedPanel = ''p1'',
                  tabGroupIds = [''tabsplit-tab-group-id-0''],
                  tabGroups = [(''tabsplit-tab-group-id-0'', ?grp)]\<rparr>,
               tabGroupIdCount := 1\<rparr>"
  let ?b = "empty_batch\<lparr>added := [''tabsplit-tab-group-id-0''], dirty := True\<rparr>"
  have h: "apply_action demo_active empty_batch (AddTabGroup (demo_group ''p1'' ''p2''))
        = Inr (?st', ?b)"
    by (simp add: demo_active_eq)
      (simp add: demo_defs update_defs add_defs Let_def group_id_0)
  have c: "tabGroupIdCount demo_active = 0"
    by (simp add: demo_active_eq) (simp add: demo_defs)
  have e: "stored_groups (state demo_active) = [] \<and> group_order (state demo_active) = []"
    by (simp add: demo_active_eq) (simp add: demo_defs)
  note n = demo_count
  have u: "[0 ..< 2] = [0, Suc 0]" by (simp add: upt_rec)
  from group_ids_are_never_reused
         [of demo_active empty_batch "demo_group ''p1'' ''p2''" ?st' ?b demo_utils demo_calls]
       h c e n u
  show ?thesis
    by (simp add: empty_batch_def demo_run group_id_0 [unfolded group_id_def]
          group_id_1 [unfolded group_id_def])
qed

subsection \<open>Each listener is called once\<close>

text \<open>
  What does hold of a notification: the listener set never holds a listener twice,
  and a call that notifies calls each listener of the set once, in the order of
  the set.
\<close>

lemma run_actions_listeners:
  "run_actions st b as = Inl (e, st', b') \<or> run_actions st b as = Inr (st', b') \<Longrightarrow>
     listeners st' = listeners st"
proof (induction as arbitrary: st b)
  case Nil
  then show ?case by simp
next
  case (Cons a as)
  show ?case
  proof (cases "apply_action st b a")
    case (Inl e')
    with Cons.prems show ?thesis by simp
  next
    case (Inr r)
    obtain st1 b1 where r: "r = (st1, b1)" by (cases r)
    from Inr r have s: "apply_action st b a = Inr (st1, b1)" by simp
    then have l: "listeners st1 = listeners st"
      by (cases rule: apply_action_Inr) simp_all
    from s Cons.prems
    have "run_actions st1 b1 as = Inl (e, st', b') \<or> run_actions st1 b1 as = Inr (st', b')"
      by simp
    from Cons.IH [OF this] l show ?thesis by simp
  qed
qed

lemma notified_once:
  assumes "snd (update st as) = Notified cs" and "listeners st = Some ls"
  shows "map fst cs = ls"
proof -
  from notified_calls [OF assms(1)] obtain st' b' ls' where
    r: "run_actions st empty_batch as = Inr (st', b')" and l: "listeners st' = Some ls'"
    and c: "cs = map (\<lambda>l. (l, diff_of b')) ls'" by blast
  from run_actions_listeners [of st empty_batch as _ st' b'] r have "listeners st' = listeners st"
    by simp
  with l assms(2) c show ?thesis by (simp add: comp_def)
qed

lemma listeners_update:
  "listeners (fst (update st as)) = listeners st \<or> listeners (fst (update st as)) = None"
proof -
  from run_actions_result obtain e st' b' where
    r: "run_actions st empty_batch as = Inl (e, st', b') \<or> run_actions st empty_batch as = Inr (st', b')"
    by blast
  from run_actions_listeners [OF r] r show ?thesis
    by (cases "dirty b'") (auto simp: update_def notify_def Let_def split: option.splits if_splits)
qed

lemma listeners_distinct:
  fixes u :: "('n::{ord,zero,one,plus}) utils"
  shows "listeners (run_calls (init u) cs) = Some ls \<Longrightarrow> distinct ls"
proof -
  define D where "D st \<longleftrightarrow> (\<forall>ls. listeners st = Some ls \<longrightarrow> distinct ls)" for st :: "'n store"
  have step: "D (exec st c)" if "D st" for st c
  proof (cases c)
    case (Update as)
    with that listeners_update [of st as] show ?thesis by (auto simp: D_def)
  next
    case (Subscribe l)
    with that show ?thesis by (auto simp: D_def subscribe_def split: option.splits)
  next
    case (Unsubscribe l)
    with that show ?thesis
      by (auto simp: D_def unsubscribe_def distinct_removeAll split: option.splits)
  qed
  have run: "D (foldl exec st cs)" if "D st" for st
    using that
  proof (induction cs arbitrary: st)
    case Nil
    then show ?case by simp
  next
    case (Cons c cs)
    from Cons.prems have "D (exec st c)" by (rule step)
    then have "D (foldl exec (exec st c) cs)" by (rule Cons.IH)
    then show ?case by simp
  qed
  have "D (init u)" by (simp add: D_def init_def)
  from run [OF this] show "listeners (run_calls (init u) cs) = Some ls \<Longrightarrow> distinct ls"
    by (simp add: D_def run_calls_def)
qed

end
